theory Spec2Isabelle
  imports Main "HOL-Library.Word"
begin

unbundle bit_operations_syntax

section \<open>Bytes and the SLIP frame codec (slip\_utils/slip\_dispatcher.py)\<close>

text \<open>
  A Python \<open>bytes\<close> or \<open>bytearray\<close> value is a list of 8-bit words.
\<close>

type_synonym byte = "8 word"

definition END :: byte where "END = 0x0A"
definition ESC :: byte where "ESC = 0xDB"
definition ESC_END :: byte where "ESC_END = 0xDC"
definition ESC_ESC :: byte where "ESC_ESC = 0xDD"

definition END_b :: "byte list" where "END_b = [END]"
definition ESC_b :: "byte list" where "ESC_b = [ESC]"
definition ESC_END_b :: "byte list" where "ESC_END_b = [ESC_END]"
definition ESC_ESC_b :: "byte list" where "ESC_ESC_b = [ESC_ESC]"

text \<open>
  Python's \<open>data.replace(old, new)\<close>: every non-overlapping occurrence of \<open>old\<close>,
  found from left to right, is replaced; the text inserted is not scanned again. With an
  empty \<open>old\<close> Python inserts \<open>new\<close> before every byte and at the end.
\<close>

fun replace_bytes :: "byte list \<Rightarrow> byte list \<Rightarrow> byte list \<Rightarrow> byte list" where
  "replace_bytes [] new data = new @ concat (map (\<lambda>x. x # new) data)"
| "replace_bytes (p # ps) new [] = []"
| "replace_bytes (p # ps) new (x # xs) =
     (if take (length (p # ps)) (x # xs) = p # ps
      then new @ replace_bytes (p # ps) new (drop (length ps) xs)
      else x # replace_bytes (p # ps) new xs)"

text \<open>Python's \<open>data.strip(chars)\<close>: leading and trailing bytes that occur in \<open>chars\<close> go.\<close>

definition strip_bytes :: "byte list \<Rightarrow> byte list \<Rightarrow> byte list" where
  "strip_bytes chars data =
     rev (dropWhile (\<lambda>b. b \<in> set chars) (rev (dropWhile (\<lambda>b. b \<in> set chars) data)))"

text \<open>\<open>Slip.encode\<close> and \<open>Slip.decode\<close>, substitution by substitution as the source has them.\<close>

definition encode :: "byte list \<Rightarrow> byte list" where
  "encode data =
     replace_bytes END_b (ESC_b @ ESC_END_b)
       (replace_bytes ESC_b (ESC_b @ ESC_ESC_b) data)
     @ END_b"

definition decode :: "byte list \<Rightarrow> byte list" where
  "decode data =
     strip_bytes END_b
       (replace_bytes (ESC_b @ ESC_END_b) END_b
         (replace_bytes (ESC_b @ ESC_ESC_b) ESC_b data))"

text \<open>
  For stating what the codec does byte by byte: whether a byte sequence holds \<open>a\<close>
  immediately followed by \<open>b\<close>; the encoding of one byte; and what the first
  substitution of \<open>decode\<close> leaves of it.
\<close>

fun has_pair :: "byte \<Rightarrow> byte \<Rightarrow> byte list \<Rightarrow> bool" where
  "has_pair a b (x # y # zs) = ((x = a \<and> y = b) \<or> has_pair a b (y # zs))"
| "has_pair a b [x] = False"
| "has_pair a b [] = False"

definition escaped :: "byte \<Rightarrow> byte list" where
  "escaped b = (if b = ESC then [ESC, ESC_ESC] else if b = END then [ESC, ESC_END] else [b])"

definition half_unescaped :: "byte \<Rightarrow> byte list" where
  "half_unescaped b = (if b = END then [ESC, ESC_END] else [b])"

section \<open>The frame extractor (SlipSerialReader)\<close>

text \<open>
  The loop of \<open>data_received\<close>: while the buffer holds an end marker, the bytes up to
  and including the first one leave the buffer as one raw packet. The result is the list of
  raw packets in the order their tasks are created, and the buffer that stays.
\<close>

definition index_of :: "byte \<Rightarrow> byte list \<Rightarrow> nat" where
  "index_of b buf = length (takeWhile (\<lambda>x. x \<noteq> b) buf)"

function extract_packets :: "byte list \<Rightarrow> byte list list \<times> byte list" where
  "extract_packets buffer =
     (if END \<in> set buffer then
        (let end_index = index_of END buffer;
             raw_packet = take (end_index + 1) buffer;
             (packets, rest) = extract_packets (drop (end_index + 1) buffer)
         in (raw_packet # packets, rest))
      else ([], buffer))"
  by pat_completeness auto
termination
  by (relation "measure length") (auto dest: length_pos_if_in_set)

declare extract_packets.simps [simp del]

text \<open>\<open>data_received\<close>: the chunk is appended to the buffer, then the loop runs.\<close>

definition data_received :: "byte list \<Rightarrow> byte list \<Rightarrow> byte list list \<times> byte list" where
  "data_received buffer data = extract_packets (buffer @ data)"

text \<open>
  \<open>process_packet\<close> up to the dispatch: the packet is decoded, an empty decoded packet is
  dropped, otherwise the first byte is the address and the rest the payload.
\<close>

definition process_packet :: "byte list \<Rightarrow> (byte \<times> byte list) option" where
  "process_packet packet =
     (case decode packet of
        [] \<Rightarrow> None
      | address # payload \<Rightarrow> Some (address, payload))"

text \<open>Feeding a list of chunks, one \<open>data_received\<close> call each, from a given buffer.\<close>

fun feed_chunks :: "byte list \<Rightarrow> byte list list \<Rightarrow> byte list list \<times> byte list" where
  "feed_chunks buffer [] = ([], buffer)"
| "feed_chunks buffer (data # chunks) =
     (let (packets, buffer') = data_received buffer data;
          (packets', buffer'') = feed_chunks buffer' chunks
      in (packets @ packets', buffer''))"

definition decoded_frames :: "byte list list \<Rightarrow> (byte \<times> byte list) list" where
  "decoded_frames packets = List.map_filter process_packet packets"

section \<open>The length-prefixed reassembler (ProtobufDelimitedBuffer)\<close>

datatype error = ValueError

text \<open>
  \<open>_read_varint\<close>: the loop over \<open>enumerate(buf)\<close> with its three variables. Python's
  integers are unbounded, so \<open>result\<close> and \<open>shift\<close> are naturals. Running off the end of
  the buffer raises \<open>ValueError("Incomplete varint")\<close>.
\<close>

fun read_varint_loop :: "nat \<Rightarrow> nat \<Rightarrow> nat \<Rightarrow> byte list \<Rightarrow> error + (nat \<times> nat)" where
  "read_varint_loop result shift i [] = Inl ValueError"
| "read_varint_loop result shift i (byte # buf) =
     (let result' = result OR push_bit shift (unat (byte AND 0x7F))
      in if byte AND 0x80 = 0 then Inr (result', i + 1)
         else read_varint_loop result' (shift + 7) (i + 1) buf)"

definition read_varint :: "byte list \<Rightarrow> error + (nat \<times> nat)" where
  "read_varint buf = read_varint_loop 0 0 0 buf"

text \<open>
  \<open>_extract_next_message\<close>: any exception of the body is caught and answered with
  \<open>(None, buf)\<close>; the slices \<open>buf[msg_start:msg_end]\<close> and \<open>buf[msg_end:]\<close> are in range
  where they are taken. The source's variable \<open>size\<close> is \<open>size_val\<close> here.
\<close>

definition extract_next_message :: "byte list \<Rightarrow> byte list option \<times> byte list" where
  "extract_next_message buf =
     (case read_varint buf of
        Inl e \<Rightarrow> (None, buf)
      | Inr (size_val, size_len) \<Rightarrow>
          if length buf < size_len + size_val then (None, buf)
          else
            (let msg_start = size_len;
                 msg_end = size_len + size_val;
                 msg = take (msg_end - msg_start) (drop msg_start buf)
             in (Some msg, drop msg_end buf)))"

lemma read_varint_loop_length:
  "read_varint_loop result shift i buf = Inr (size_val, size_len) \<Longrightarrow> i < size_len"
  by (induction buf arbitrary: result shift i) (fastforce simp: Let_def split: if_splits)+

lemma extract_next_message_shorter:
  "extract_next_message buf = (Some msg, remaining) \<Longrightarrow> length remaining < length buf"
  by (auto simp: extract_next_message_def read_varint_def Let_def
        split: sum.splits if_splits dest!: read_varint_loop_length)

text \<open>
  The loop of \<open>feed\<close>, after the chunk has been appended: messages leave the buffer while
  one is complete. The result is the list of messages handed to the consumer, in order,
  and the buffer that stays.
\<close>

function feed_loop :: "byte list \<Rightarrow> byte list list \<times> byte list" where
  "feed_loop buf =
     (case extract_next_message buf of
        (None, remaining) \<Rightarrow> ([], buf)
      | (Some msg, remaining) \<Rightarrow>
          (let (msgs, buf') = feed_loop remaining in (msg # msgs, buf')))"
  by pat_completeness auto
termination
  by (relation "measure length") (auto dest: extract_next_message_shorter [OF sym])

declare feed_loop.simps [simp del]

definition feed :: "byte list \<Rightarrow> byte list \<Rightarrow> byte list list \<times> byte list" where
  "feed buf data = feed_loop (buf @ data)"

fun feed_all :: "byte list \<Rightarrow> byte list list \<Rightarrow> byte list list \<times> byte list" where
  "feed_all buf [] = ([], buf)"
| "feed_all buf (data # chunks) =
     (let (msgs, buf') = feed buf data;
          (msgs', buf'') = feed_all buf' chunks
      in (msgs @ msgs', buf''))"

text \<open>
  Modelled from the spec: the sender's encoder of the length prefix, which the repository
  does not hold. A variable-length unsigned integer is a sequence of bytes, each carrying
  7 value bits, low bits first, with the high bit set when more bytes follow. A
  length-prefixed message is the prefix of the payload's length, then the payload.
\<close>

function varint_encode :: "nat \<Rightarrow> byte list" where
  "varint_encode n =
     (if n < 128 then [of_nat n]
      else of_nat (n mod 128 + 128) # varint_encode (n div 128))"
  by pat_completeness auto
termination
  by (relation "measure id") auto

declare varint_encode.simps [simp del]

definition length_prefixed :: "byte list \<Rightarrow> byte list" where
  "length_prefixed payload = varint_encode (length payload) @ payload"

section \<open>Settings values and the settings verifier (settings\_utils/settings\_handler.py)\<close>

text \<open>
  A Python \<open>dict\<close> keeps its keys in insertion order: it is an association list. Keys
  and the device serial are strings. \<open>d.get(k, dflt)\<close> and \<open>d[k] = v\<close> (which keeps
  the place of a key that is present and appends one that is new):
\<close>

definition dict_get :: "('k \<times> 'v) list \<Rightarrow> 'k \<Rightarrow> 'v \<Rightarrow> 'v" where
  "dict_get d k dflt = (case map_of d k of None \<Rightarrow> dflt | Some v \<Rightarrow> v)"

fun dict_set :: "('k \<times> 'v) list \<Rightarrow> 'k \<Rightarrow> 'v \<Rightarrow> ('k \<times> 'v) list" where
  "dict_set [] k v = [(k, v)]"
| "dict_set ((k', v') # d) k v =
     (if k' = k then (k, v) # d else (k', v') # dict_set d k v)"

text \<open>
  \<open>SettingsHandler.verify\<close>. The values are compared with Python's \<open>!=\<close>, which is the
  parameter \<open>ne\<close>; \<open>received\<close> may be \<open>None\<close>, and \<open>not received\<close> holds for \<open>None\<close>
  and for the empty dict. The function returns \<open>is_verified\<close>; the lines it logs are
  the second component, in the order they are written.
\<close>

datatype ('k, 'v) log_line =
    Log_returned 'k 'v
  | Log_mismatch 'v 'v
  | Log_missing 'k

definition excluded_keys :: "string list" where
  "excluded_keys =
     [''save'', ''reset'', ''settings/key_0'', ''settings/key_1'', ''settings/key_2'']"

definition verify_item ::
  "('v \<Rightarrow> 'v \<Rightarrow> bool) \<Rightarrow> (string \<times> 'v) list \<Rightarrow> bool \<times> (string, 'v) log_line list
     \<Rightarrow> string \<times> 'v \<Rightarrow> bool \<times> (string, 'v) log_line list" where
  "verify_item ne received acc item =
     (let (is_verified, logs) = acc; (key, val) = item in
      if key \<in> set excluded_keys then (is_verified, logs)
      else
        (case map_of received key of
           Some received_value \<Rightarrow>
             if ne received_value val
             then (False, logs @ [Log_returned key received_value, Log_mismatch val received_value])
             else (is_verified, logs @ [Log_returned key received_value])
         | None \<Rightarrow> (False, logs @ [Log_missing key])))"

definition verify ::
  "('v \<Rightarrow> 'v \<Rightarrow> bool) \<Rightarrow> (string \<times> 'v) list \<Rightarrow> (string \<times> 'v) list option
     \<Rightarrow> bool \<times> (string, 'v) log_line list" where
  "verify ne expected received =
     (case received of
        None \<Rightarrow> (False, [])
      | Some r \<Rightarrow>
          if r = [] then (False, [])
          else foldl (verify_item ne r) (True, []) expected)"

text \<open>The error lines among the logged ones.\<close>

fun is_error :: "('k, 'v) log_line \<Rightarrow> bool" where
  "is_error (Log_returned k v) = False"
| "is_error (Log_mismatch v w) = True"
| "is_error (Log_missing k) = True"

text \<open>
  The error lines the claim about \<open>verify\<close> expects for one item of \<open>expected\<close>: none for
  an excluded key or an equal value, one for a missing key, one for a differing value.
\<close>

definition expected_errors ::
  "('v \<Rightarrow> 'v \<Rightarrow> bool) \<Rightarrow> (string \<times> 'v) list \<Rightarrow> string \<times> 'v \<Rightarrow> (string, 'v) log_line list" where
  "expected_errors ne received item =
     (let (k, v) = item in
      if k \<in> set excluded_keys then []
      else (case map_of received k of
              None \<Rightarrow> [Log_missing k]
            | Some w \<Rightarrow> if ne w v then [Log_mismatch v w] else []))"

section \<open>Futures and the JSON reassembler (SettingsHandler)\<close>

text \<open>
  An \<open>asyncio.Future\<close> is pending, holds a result, or has been cancelled;
  \<open>done()\<close> holds in the last two states. What an \<open>await\<close> does: it returns a value,
  it stays suspended because nothing more happens, or it raises \<open>CancelledError\<close>.
\<close>

datatype 'a future = Pending | Resolved 'a | Cancelled

definition is_done :: "'a future \<Rightarrow> bool" where
  "is_done f = (f \<noteq> Pending)"

datatype 'a outcome = Returned 'a | Suspended | Raised_CancelledError

text \<open>
  A Python \<open>str\<close> is a list of code points. \<open>json.loads\<close> is a library function, a
  parameter of the model. A call of it returns a value, raises \<open>JSONDecodeError\<close>, or
  raises another exception (\<open>RecursionError\<close> on deep nesting, \<open>ValueError\<close> on an
  integer literal beyond the digit limit of the interpreter).
\<close>

type_synonym pystr = "nat list"

datatype 'j loads_result = Loaded 'j | JSONDecodeError | Other_exception

definition LBRACE :: nat where "LBRACE = 0x7B"
definition RBRACE :: nat where "RBRACE = 0x7D"

record 'j SettingsHandler =
  buffer :: pystr
  brace_count :: int
  in_json :: bool
  response_future :: "'j option future option"

definition SettingsHandler_init :: "'j SettingsHandler" where
  "SettingsHandler_init =
     \<lparr>buffer = [], brace_count = 0, in_json = False, response_future = None\<rparr>"

definition scan_char :: "'j SettingsHandler \<Rightarrow> nat \<Rightarrow> 'j SettingsHandler" where
  "scan_char st ch =
     (if ch = LBRACE then st\<lparr>brace_count := brace_count st + 1, in_json := True\<rparr>
      else if ch = RBRACE then st\<lparr>brace_count := brace_count st - 1\<rparr>
      else st)"

text \<open>
  \<open>handle\<close>: the state the call leaves, and the values \<open>set_result\<close> was called with
  (none or one). \<open>payload.decode("utf-8", errors="replace")\<close> is the parameter
  \<open>utf8_decode\<close>. The \<open>except\<close> clause catches \<open>JSONDecodeError\<close> only: any other
  exception of \<open>json.loads\<close> leaves \<open>handle\<close> at once, before \<open>set_result\<close> and before
  the buffer and \<open>in_json\<close> are reset, with the chunk already appended and counted.
  \<open>handle_raises\<close> tells whether a call ends that way. The exception goes no further
  than \<open>process_packet\<close>, which logs it (\<open>except Exception\<close>).
\<close>

definition handle ::
  "(pystr \<Rightarrow> 'j loads_result) \<Rightarrow> (byte list \<Rightarrow> pystr) \<Rightarrow> 'j SettingsHandler \<Rightarrow> byte list
     \<Rightarrow> 'j SettingsHandler \<times> 'j option list" where
  "handle json_loads utf8_decode st payload =
     (let chunk = utf8_decode payload;
          st1 = st\<lparr>buffer := buffer st @ chunk\<rparr>;
          st2 = foldl scan_char st1 chunk
      in if in_json st2 \<and> brace_count st2 = 0 then
           (case json_loads (buffer st2) of
              Other_exception \<Rightarrow> (st2, [])
            | loaded \<Rightarrow>
                (let json_obj = (case loaded of Loaded v \<Rightarrow> Some v | _ \<Rightarrow> None);
                     (fut, results) =
                       (case response_future st2 of
                          Some f \<Rightarrow>
                            if \<not> is_done f then (Some (Resolved json_obj), [json_obj])
                            else (Some f, [])
                        | None \<Rightarrow> (None, []))
                 in (st2\<lparr>response_future := fut, buffer := [], in_json := False\<rparr>, results)))
         else (st2, []))"


fun handle_all ::
  "(pystr \<Rightarrow> 'j loads_result) \<Rightarrow> (byte list \<Rightarrow> pystr) \<Rightarrow> 'j SettingsHandler \<Rightarrow> byte list list
     \<Rightarrow> 'j SettingsHandler \<times> 'j option list" where
  "handle_all json_loads utf8_decode st [] = (st, [])"
| "handle_all json_loads utf8_decode st (payload # payloads) =
     (let (st', results) = handle json_loads utf8_decode st payload;
          (st'', results') = handle_all json_loads utf8_decode st' payloads
      in (st'', results @ results'))"

text \<open>
  What happens while a coroutine waits: a payload is delivered to the handler of the
  channel, or the time of a timeout passes.
\<close>

datatype event = Packet "byte list" | Elapsed

text \<open>
  \<open>wait_response\<close>: a new future takes the slot, then \<open>asyncio.wait_for\<close> awaits it.
  When the time has passed, \<open>wait_for\<close> cancels the future and raises \<open>TimeoutError\<close>,
  which \<open>wait_response\<close> answers with \<open>None\<close>.
\<close>

fun await_response ::
  "(pystr \<Rightarrow> 'j loads_result) \<Rightarrow> (byte list \<Rightarrow> pystr) \<Rightarrow> 'j SettingsHandler \<Rightarrow> event list
     \<Rightarrow> 'j SettingsHandler \<times> 'j option outcome" where
  "await_response json_loads utf8_decode st [] = (st, Suspended)"
| "await_response json_loads utf8_decode st (Elapsed # events) =
     (st\<lparr>response_future := Some Cancelled\<rparr>, Returned None)"
| "await_response json_loads utf8_decode st (Packet payload # events) =
     (let (st', results) = handle json_loads utf8_decode st payload in
      case response_future st' of
        Some (Resolved v) \<Rightarrow> (st', Returned v)
      | _ \<Rightarrow> await_response json_loads utf8_decode st' events)"

definition wait_response ::
  "(pystr \<Rightarrow> 'j loads_result) \<Rightarrow> (byte list \<Rightarrow> pystr) \<Rightarrow> 'j SettingsHandler \<Rightarrow> event list
     \<Rightarrow> 'j SettingsHandler \<times> 'j option outcome" where
  "wait_response json_loads utf8_decode st events =
     await_response json_loads utf8_decode (st\<lparr>response_future := Some Pending\<rparr>) events"

text \<open>
  The nesting depth the handler counts for a text: every brace character counts, also
  one inside a JSON string. A text \<open>closes_only_at_end\<close> when it holds an opening
  brace and the depth, once an opening brace has been seen, is zero at the end of the
  text and nowhere before.
\<close>

fun brace_depth :: "pystr \<Rightarrow> int" where
  "brace_depth [] = 0"
| "brace_depth (ch # t) =
     (if ch = LBRACE then 1 else if ch = RBRACE then - 1 else 0) + brace_depth t"



definition ascii_bytes :: "string \<Rightarrow> byte list" where
  "ascii_bytes s = map of_char s"

text \<open>
  The decoder of the library, \<open>bytes.decode("utf-8", errors="replace")\<close>, on the byte
  values as naturals. It is not code of this repository; it is modelled after the
  decoder of CPython, which follows the Unicode standard: a well-formed sequence of one
  to four bytes gives its code point (no overlong form, no surrogate, nothing above
  U+10FFFF), and every maximal ill-formed part, a byte that cannot begin a sequence or a
  sequence cut short by the next byte or by the end of the input, gives one U+FFFD.

  \<open>utf8_head\<close> reads at the head of the input: the code point, or \<open>None\<close> for an
  ill-formed part, and the number of bytes read.
\<close>

definition is_cont :: "nat \<Rightarrow> bool" where
  "is_cont c = (0x80 \<le> c \<and> c \<le> 0xBF)"

definition second_ok :: "nat \<Rightarrow> nat \<Rightarrow> bool" where
  "second_ok b c =
     (if b = 0xE0 then 0xA0 \<le> c \<and> c \<le> 0xBF
      else if b = 0xED then 0x80 \<le> c \<and> c \<le> 0x9F
      else if b = 0xF0 then 0x90 \<le> c \<and> c \<le> 0xBF
      else if b = 0xF4 then 0x80 \<le> c \<and> c \<le> 0x8F
      else is_cont c)"

fun utf8_head :: "nat list \<Rightarrow> nat option \<times> nat" where
  "utf8_head [] = (None, 0)"
| "utf8_head (b # rest) =
     (if b < 0x80 then (Some b, 1)
      else if 0xC2 \<le> b \<and> b \<le> 0xDF then
        (case rest of
           [] \<Rightarrow> (None, 1)
         | c1 # r1 \<Rightarrow>
             if is_cont c1 then (Some ((b - 0xC0) * 64 + (c1 - 0x80)), 2) else (None, 1))
      else if 0xE0 \<le> b \<and> b \<le> 0xEF then
        (case rest of
           [] \<Rightarrow> (None, 1)
         | c1 # r1 \<Rightarrow>
             if \<not> second_ok b c1 then (None, 1)
             else (case r1 of
                     [] \<Rightarrow> (None, 2)
                   | c2 # r2 \<Rightarrow>
                       if is_cont c2
                       then (Some ((b - 0xE0) * 4096 + (c1 - 0x80) * 64 + (c2 - 0x80)), 3)
                       else (None, 2)))
      else if 0xF0 \<le> b \<and> b \<le> 0xF4 then
        (case rest of
           [] \<Rightarrow> (None, 1)
         | c1 # r1 \<Rightarrow>
             if \<not> second_ok b c1 then (None, 1)
             else (case r1 of
                     [] \<Rightarrow> (None, 2)
                   | c2 # r2 \<Rightarrow>
                       if \<not> is_cont c2 then (None, 2)
                       else (case r2 of
                               [] \<Rightarrow> (None, 3)
                             | c3 # r3 \<Rightarrow>
                                 if is_cont c3
                                 then (Some ((b - 0xF0) * 262144 + (c1 - 0x80) * 4096
                                             + (c2 - 0x80) * 64 + (c3 - 0x80)), 4)
                                 else (None, 3))))
      else (None, 1))"

function utf8_decode_nat :: "nat list \<Rightarrow> pystr" where
  "utf8_decode_nat [] = []"
| "utf8_decode_nat (b # rest) =
     (case utf8_head (b # rest) of
        (Some cp, n) \<Rightarrow> cp # utf8_decode_nat (drop n (b # rest))
      | (None, n) \<Rightarrow> 0xFFFD # utf8_decode_nat (drop n (b # rest)))"
  by pat_completeness auto
termination
  by (relation "measure length")
     (auto split: if_splits list.splits)

text \<open>A byte string is well-formed UTF-8 when the decoder replaces nothing in it.\<close>

function utf8_valid_nat :: "nat list \<Rightarrow> bool" where
  "utf8_valid_nat [] = True"
| "utf8_valid_nat (b # rest) =
     (case utf8_head (b # rest) of
        (Some cp, n) \<Rightarrow> utf8_valid_nat (drop n (b # rest))
      | (None, n) \<Rightarrow> False)"
  by pat_completeness auto
termination
  by (relation "measure length")
     (auto split: if_splits list.splits)

definition utf8_decode_replace :: "byte list \<Rightarrow> pystr" where
  "utf8_decode_replace payload = utf8_decode_nat (map unat payload)"

definition utf8_valid :: "byte list \<Rightarrow> bool" where
  "utf8_valid payload = utf8_valid_nat (map unat payload)"


section \<open>The firmware-info reader (fwinfo\_utils/fwinfo\_reader.py)\<close>

text \<open>
  The generated protobuf module is not part of the sources: \<open>FromString\<close> is a
  parameter. Its result says whether parsing raised, and whether the message holds
  \<open>res.dev_info\<close> with its serial number.
\<close>

datatype fwinfo_message = Malformed | No_dev_info | Dev_info string

record FWInfoReader =
  serial_future :: "string future"

definition FWInfoReader_init :: FWInfoReader where
  "FWInfoReader_init = \<lparr>serial_future = Pending\<rparr>"

definition handler :: "(byte list \<Rightarrow> fwinfo_message) \<Rightarrow> FWInfoReader \<Rightarrow> byte list \<Rightarrow> FWInfoReader" where
  "handler FromString fw payload =
     (case FromString payload of
        Dev_info serial_number \<Rightarrow>
          if \<not> is_done (serial_future fw) then fw\<lparr>serial_future := Resolved serial_number\<rparr>
          else fw
      | No_dev_info \<Rightarrow> fw
      | Malformed \<Rightarrow> fw)"

text \<open>
  \<open>wait_serial\<close> is \<open>await self._serial_future\<close>, with no timeout: passing time changes
  nothing, and when nothing more arrives the coroutine stays suspended.
\<close>

fun wait_serial :: "(byte list \<Rightarrow> fwinfo_message) \<Rightarrow> FWInfoReader \<Rightarrow> event list \<Rightarrow> string outcome" where
  "wait_serial FromString fw events =
     (case serial_future fw of
        Resolved serial_number \<Rightarrow> Returned serial_number
      | Cancelled \<Rightarrow> Raised_CancelledError
      | Pending \<Rightarrow>
          (case events of
             [] \<Rightarrow> Suspended
           | Elapsed # events' \<Rightarrow> wait_serial FromString fw events'
           | Packet payload # events' \<Rightarrow>
               wait_serial FromString (handler FromString fw payload) events'))"

declare wait_serial.simps [simp del]

section \<open>The settings authorizer (settings\_utils/settings\_authorizer.py)\<close>

text \<open>
  The JSON values the settings of this program hold, with Python's truth value and
  Python's \<open>!=\<close> on them (\<open>True == 1\<close> and \<open>False == 0\<close> in Python).
\<close>

datatype jval = JNull | JBool bool | JInt int | JStr string

type_synonym jdict = "(string \<times> jval) list"

fun truthy :: "jval \<Rightarrow> bool" where
  "truthy JNull = False"
| "truthy (JBool b) = b"
| "truthy (JInt i) = (i \<noteq> 0)"
| "truthy (JStr s) = (s \<noteq> [])"

fun num_of :: "jval \<Rightarrow> int option" where
  "num_of (JBool b) = Some (if b then 1 else 0)"
| "num_of (JInt i) = Some i"
| "num_of JNull = None"
| "num_of (JStr s) = None"

definition py_ne :: "jval \<Rightarrow> jval \<Rightarrow> bool" where
  "py_ne a b =
     (case (num_of a, num_of b) of
        (Some x, Some y) \<Rightarrow> x \<noteq> y
      | (None, None) \<Rightarrow> a \<noteq> b
      | (Some x, None) \<Rightarrow> True
      | (None, Some y) \<Rightarrow> True)"

text \<open>
  The library functions \<open>sign_settings\<close> calls are parameters of the model:
  \<open>json.dumps\<close>, \<open>str.encode("utf-8")\<close>, \<open>base64.b64encode\<close>, \<open>bytes.decode("utf-8")\<close>
  and the AES-CCM tag of a key, a nonce and the data encrypted so far.
\<close>

record libs =
  json_dumps :: "jdict \<Rightarrow> string"
  str_encode :: "string \<Rightarrow> byte list"
  b64encode :: "byte list \<Rightarrow> byte list"
  bytes_decode :: "byte list \<Rightarrow> string"
  ccm_tag :: "byte list \<Rightarrow> byte list \<Rightarrow> byte list \<Rightarrow> byte list"

text \<open>
  The cipher object: \<open>AES.new(key, AES.MODE_CCM, nonce=...)\<close> makes a fresh one,
  \<open>encrypt\<close> feeds it data (the ciphertext is discarded by the caller), \<open>digest\<close>
  reads the tag.
\<close>

record ccm_cipher =
  cipher_key :: "byte list"
  cipher_nonce :: "byte list"
  cipher_data :: "byte list"

definition AES_new_CCM :: "byte list \<Rightarrow> byte list \<Rightarrow> ccm_cipher" where
  "AES_new_CCM k nonce = \<lparr>cipher_key = k, cipher_nonce = nonce, cipher_data = []\<rparr>"

definition encrypt :: "ccm_cipher \<Rightarrow> byte list \<Rightarrow> ccm_cipher" where
  "encrypt c plaintext = c\<lparr>cipher_data := cipher_data c @ plaintext\<rparr>"

definition digest :: "libs \<Rightarrow> ccm_cipher \<Rightarrow> byte list" where
  "digest L c = ccm_tag L (cipher_key c) (cipher_nonce c) (cipher_data c)"

record DTSettingsAuthorizer =
  key :: "byte list"

definition sign_settings :: "libs \<Rightarrow> DTSettingsAuthorizer \<Rightarrow> jdict \<Rightarrow> string \<Rightarrow> jdict" where
  "sign_settings L self settings serial =
     (let settings_with_sn = dict_set settings ''sn'' (JStr serial);
          content = b64encode L (str_encode L (json_dumps L settings_with_sn));
          c = AES_new_CCM (key self) (replicate 13 0);
          c' = encrypt c content;
          tag = digest L c';
          signature = b64encode L tag
      in [(''cnt'', JStr (bytes_decode L content)),
          (''sig'', JStr (bytes_decode L signature))])"

section \<open>The provisioning orchestrator (main.py)\<close>

text \<open>
  What \<open>main\<close> does to the outside, in order: the frames it writes (named by the
  function that writes them), its sleeps, closing the transport, the reconnect attempts
  (whether \<open>dispatcher.start\<close> succeeded) and the two final log lines.
\<close>

datatype action =
    Read_settings
  | Upload jdict
  | Sleep
  | Fwinfo_request
  | Restart_device
  | Close
  | Start bool
  | Log_restarted
  | Log_restart_timed_out

text \<open>
  What the outside answers: the results of the successive \<open>wait_response()\<close> awaits
  (\<open>None\<close> after a timeout or a JSON error; when the list is used up every further wait
  times out), the outcome of \<open>wait_serial()\<close>, and for each reconnect attempt whether
  \<open>dispatcher.start\<close> succeeds (it raises when the list is used up). The first
  \<open>dispatcher.start\<close> of \<open>main\<close> is taken to have succeeded.
\<close>

record env =
  responses :: "jdict option list"
  serial_wait :: "string outcome"
  starts :: "bool list"

definition next_response :: "jdict option list \<Rightarrow> jdict option \<times> jdict option list" where
  "next_response rs = (case rs of [] \<Rightarrow> (None, []) | r # rs' \<Rightarrow> (r, rs'))"

definition not_received :: "jdict option \<Rightarrow> bool" where
  "not_received received = (received = None \<or> received = Some [])"

text \<open>\<open>upload_settings\<close>: its result, what it did, and the answers still to come.\<close>

definition upload_settings ::
  "jdict \<Rightarrow> jdict option \<Rightarrow> jdict option list \<Rightarrow> bool \<times> action list \<times> jdict option list" where
  "upload_settings payload verify_dict rs =
     (let actions = [Upload payload, Sleep, Read_settings];
          (received, rs') = next_response rs
      in if not_received received then (False, actions, rs')
         else
           (case verify_dict of
              Some vd \<Rightarrow>
                if vd \<noteq> [] then
                  (if fst (verify py_ne vd received) then (True, actions, rs')
                   else (False, actions, rs'))
                else (True, actions, rs')
            | None \<Rightarrow> (True, actions, rs')))"

text \<open>The reconnect loop \<open>for i in range(10)\<close> with its \<open>else\<close> branch.\<close>

fun reconnect :: "nat \<Rightarrow> bool list \<Rightarrow> jdict option list \<Rightarrow> action list" where
  "reconnect 0 ss rs = [Log_restart_timed_out]"
| "reconnect (Suc n) ss rs =
     Sleep #
     (case ss of
        [] \<Rightarrow> Start False # reconnect n [] rs
      | s # ss' \<Rightarrow>
          if s then
            (let (received, rs') = next_response rs in
             Start True # Read_settings #
               (if \<not> not_received received then [Log_restarted] else reconnect n ss' rs'))
          else Start False # reconnect n ss' rs)"

text \<open>Step 3 of \<open>main\<close> and all that follows it: the signed settings flow.\<close>

definition signed_settings_flow ::
  "libs \<Rightarrow> byte list \<Rightarrow> env \<Rightarrow> jdict option list \<Rightarrow> action list \<times> unit outcome" where
  "signed_settings_flow L AUTH_KEY e rs =
     (let authorizer = \<lparr>key = AUTH_KEY\<rparr> in
      case serial_wait e of
        Suspended \<Rightarrow> ([Fwinfo_request], Suspended)
      | Raised_CancelledError \<Rightarrow> ([Fwinfo_request], Raised_CancelledError)
      | Returned serial \<Rightarrow>
          (let settings_to_send = [(''app/brightness'', JInt 25), (''save'', JBool True)];
               signed_settings = sign_settings L authorizer settings_to_send serial;
               (ok, actions, rs') = upload_settings signed_settings (Some settings_to_send) rs
           in ([Fwinfo_request] @ actions @ [Restart_device, Close]
                 @ reconnect 10 (starts e) rs' @ [Close],
               Returned ())))"

definition main :: "libs \<Rightarrow> byte list \<Rightarrow> env \<Rightarrow> action list \<times> unit outcome" where
  "main L AUTH_KEY e =
     (let (received, rs1) = next_response (responses e) in
      case received of
        None \<Rightarrow> ([Read_settings, Close], Returned ())
      | Some r \<Rightarrow>
          if r = [] then ([Read_settings, Close], Returned ())
          else
            (let is_locked = dict_get r ''settings/lock'' (JBool False) in
             if \<not> truthy is_locked then
               (let setup_access_settings =
                      [(''settings/acl_0'', JStr ''//////////////////////////////////////////8=''),
                       (''settings/key_0'', JStr (bytes_decode L (b64encode L AUTH_KEY))),
                       (''save'', JBool True)];
                    (ok, actions2a, rs2) =
                      upload_settings setup_access_settings (Some setup_access_settings) rs1
                in if \<not> ok then (Read_settings # actions2a @ [Close], Returned ())
                   else
                     (let lock_settings = [(''settings/lock'', JBool True), (''save'', JBool True)];
                          (ok, actions2b, rs3) =
                            upload_settings lock_settings (Some lock_settings) rs2
                      in if \<not> ok then
                           (Read_settings # actions2a @ actions2b @ [Close], Returned ())
                         else
                           (let (actions3, result) = signed_settings_flow L AUTH_KEY e rs3
                            in (Read_settings # actions2a @ actions2b @ actions3, result))))
             else
               (let (actions3, result) = signed_settings_flow L AUTH_KEY e rs1
                in (Read_settings # actions3, result))))"

section \<open>Properties of the frame codec\<close>

lemmas slip_consts =
  END_def ESC_def ESC_END_def ESC_ESC_def END_b_def ESC_b_def ESC_END_b_def ESC_ESC_b_def

text \<open>
  Claim C1 (round trip of the frame codec). The claim is that
  \<open>decode (encode x) = x\<close> for every byte sequence \<open>x\<close>, also when \<open>x\<close> holds marker
  bytes or begins or ends with an end marker. The code does not do that: \<open>decode\<close>
  strips end markers after it has put the escaped ones back, so a payload that begins or
  ends with \<open>0x0A\<close> loses those bytes, and it undoes the two substitutions in the order
  \<open>encode\<close> made them instead of the reverse, so the payload \<open>DB DC\<close> (encoded as
  \<open>DB DD DC 0A\<close>) is read back as an end marker. The theorem evaluates the code at three
  such inputs; the last is the default initial message \<open>2A0A0A\<close> of the module's own
  command line.
\<close>

theorem decode_encode_loses_bytes:
  "decode (encode [0x0A]) = []
   \<and> decode (encode [0xDB, 0xDC]) = []
   \<and> decode (encode [0x2A, 0x0A, 0x0A]) = [0x2A]"
  by (simp add: encode_def decode_def strip_bytes_def slip_consts)

lemma replace_single:
  "replace_bytes [a] new xs = concat (map (\<lambda>b. if b = a then new else [b]) xs)"
  by (induction xs) simp_all

lemma encode_escaped: "encode xs = concat (map escaped xs) @ [END]"
proof -
  have "replace_bytes [END] [ESC, ESC_END] (replace_bytes [ESC] [ESC, ESC_ESC] xs)
      = concat (map escaped xs)"
    by (induction xs) (simp_all add: replace_single escaped_def END_def ESC_def ESC_ESC_def)
  then show ?thesis by (simp add: encode_def END_b_def ESC_b_def ESC_END_b_def ESC_ESC_b_def)
qed

lemma unescape_esc:
  "replace_bytes [ESC, ESC_ESC] [ESC] (concat (map escaped xs) @ [END])
     = concat (map half_unescaped xs) @ [END]"
  by (induction xs)
     (simp_all add: escaped_def half_unescaped_def END_def ESC_def ESC_ESC_def ESC_END_def)

lemma unescape_end:
  "\<not> has_pair ESC ESC_END xs \<Longrightarrow>
   replace_bytes [ESC, ESC_END] [END] (concat (map half_unescaped xs) @ [END]) = xs @ [END]"
proof (induction xs rule: induct_list012)
  case 1
  then show ?case by (simp add: END_def ESC_def)
next
  case (2 x)
  then show ?case
    by (auto simp: half_unescaped_def END_def ESC_def ESC_ESC_def ESC_END_def)
next
  case (3 x y zs)
  then show ?case
    by (auto simp: half_unescaped_def END_def ESC_def ESC_ESC_def ESC_END_def)
qed

lemma strip_end:
  "xs = [] \<or> (hd xs \<noteq> END \<and> last xs \<noteq> END) \<Longrightarrow> strip_bytes [END] (xs @ [END]) = xs"
proof (cases xs)
  case Nil
  then show ?thesis by (simp add: strip_bytes_def)
next
  case (Cons x xs')
  assume "xs = [] \<or> (hd xs \<noteq> END \<and> last xs \<noteq> END)"
  with Cons have h: "x \<noteq> END" "last (x # xs') \<noteq> END" by auto
  have "rev (x # xs') \<noteq> []" by simp
  then obtain l ls where r: "rev (x # xs') = l # ls" by (cases "rev (x # xs')") auto
  then have "l = last (x # xs')" by (metis last_rev list.sel(1) rev_rev_ident hd_rev)
  with h have "l \<noteq> END" by simp
  then show ?thesis
    using h(1) r Cons by (simp add: strip_bytes_def) (metis rev_rev_ident rev.simps(2))
qed

text \<open>
  Where the round trip does hold: for every byte sequence that does not hold the escape
  marker \<open>0xDB\<close> immediately followed by \<open>0xDC\<close>, and that neither begins nor ends with
  the end marker \<open>0x0A\<close>, \<open>decode (encode x) = x\<close>. Marker bytes inside the sequence
  are restored.
\<close>

theorem decode_encode_without_marker_clash:
  assumes "\<not> has_pair ESC ESC_END xs"
    and "xs = [] \<or> (hd xs \<noteq> END \<and> last xs \<noteq> END)"
  shows "decode (encode xs) = xs"
  using assms
  by (simp add: decode_def encode_escaped ESC_b_def ESC_ESC_b_def ESC_END_b_def END_b_def
        unescape_esc unescape_end strip_end)

theorem decode_encode_without_marker_clash_witness:
  "\<not> has_pair ESC ESC_END [0x12, 0xDB, 0x0A, 0xDC, 0xDD, 0x7B]
   \<and> hd [0x12, 0xDB, 0x0A, 0xDC, 0xDD, 0x7B] \<noteq> END
   \<and> last [0x12, 0xDB, 0x0A, 0xDC, 0xDD, 0x7B] \<noteq> END
   \<and> decode (encode [0x12, 0xDB, 0x0A, 0xDC, 0xDD, 0x7B]) = [0x12, 0xDB, 0x0A, 0xDC, 0xDD, 0x7B]"
proof -
  have h1: "\<not> has_pair ESC ESC_END [0x12, 0xDB, 0x0A, 0xDC, 0xDD, 0x7B]"
    by (simp add: ESC_def ESC_END_def)
  have h2: "[0x12, 0xDB, 0x0A, 0xDC, 0xDD, 0x7B] = []
      \<or> (hd [0x12, 0xDB, 0x0A, 0xDC, 0xDD, 0x7B] \<noteq> END
          \<and> last [0x12, 0xDB, 0x0A, 0xDC, 0xDD, 0x7B :: byte] \<noteq> END)"
    by (simp add: END_def)
  show ?thesis
    using h1 h2 decode_encode_without_marker_clash [OF h1 h2] by simp
qed

section \<open>Properties of the frame extractor\<close>

lemma index_of_less: "b \<in> set buf \<Longrightarrow> index_of b buf < length buf"
  unfolding index_of_def by (induction buf) auto

lemma index_of_append: "b \<in> set buf \<Longrightarrow> index_of b (buf @ extra) = index_of b buf"
  unfolding index_of_def by (induction buf) auto

lemma ep_no_END: "END \<notin> set buf \<Longrightarrow> extract_packets buf = ([], buf)"
  by (subst extract_packets.simps) simp

lemma ep_END:
  "END \<in> set buf \<Longrightarrow>
   extract_packets buf =
     (take (Suc (index_of END buf)) buf
        # fst (extract_packets (drop (Suc (index_of END buf)) buf)),
      snd (extract_packets (drop (Suc (index_of END buf)) buf)))"
  by (subst extract_packets.simps) (simp add: Let_def split: prod.splits)

lemma ep_append:
  "extract_packets (a @ b) =
     (fst (extract_packets a) @ fst (extract_packets (snd (extract_packets a) @ b)),
      snd (extract_packets (snd (extract_packets a) @ b)))"
proof (induction a rule: extract_packets.induct)
  case (1 buf)
  show ?case
  proof (cases "END \<in> set buf")
    case True
    let ?i = "index_of END buf"
    have i: "?i < length buf" using True by (rule index_of_less)
    have idx: "index_of END (buf @ b) = ?i" using True by (rule index_of_append)
    have IH: "extract_packets (drop (Suc ?i) buf @ b) =
      (fst (extract_packets (drop (Suc ?i) buf))
         @ fst (extract_packets (snd (extract_packets (drop (Suc ?i) buf)) @ b)),
       snd (extract_packets (snd (extract_packets (drop (Suc ?i) buf)) @ b)))"
      using "1.IH" [OF True refl refl] by simp
    have mem: "END \<in> set (buf @ b)" using True by simp
    have L: "extract_packets (buf @ b) =
      (take (Suc ?i) buf # fst (extract_packets (drop (Suc ?i) buf @ b)),
       snd (extract_packets (drop (Suc ?i) buf @ b)))"
      using i by (simp add: ep_END [OF mem] idx)
    show ?thesis
      unfolding L by (simp add: IH ep_END [OF True])
  next
    case False
    then show ?thesis by (simp add: ep_no_END)
  qed
qed

lemma ep_rest_no_END: "END \<notin> set (snd (extract_packets buf))"
proof (induction buf rule: extract_packets.induct)
  case (1 buf)
  show ?case
  proof (cases "END \<in> set buf")
    case True
    show ?thesis using "1.IH" [OF True refl refl] by (simp add: ep_END [OF True])
  next
    case False
    then show ?thesis by (simp add: ep_no_END)
  qed
qed

lemma feed_chunks_eq:
  "END \<notin> set buf \<Longrightarrow> feed_chunks buf chunks = data_received buf (concat chunks)"
proof (induction chunks arbitrary: buf)
  case Nil
  then show ?case by (simp add: data_received_def ep_no_END)
next
  case (Cons c cs)
  have "END \<notin> set (snd (extract_packets (buf @ c)))" by (rule ep_rest_no_END)
  then have "feed_chunks (snd (extract_packets (buf @ c))) cs
     = extract_packets (snd (extract_packets (buf @ c)) @ concat cs)"
    by (simp add: Cons.IH data_received_def)
  moreover have "extract_packets (buf @ c @ concat cs) =
      (fst (extract_packets (buf @ c))
         @ fst (extract_packets (snd (extract_packets (buf @ c)) @ concat cs)),
       snd (extract_packets (snd (extract_packets (buf @ c)) @ concat cs)))"
    using ep_append [of "buf @ c" "concat cs"] by simp
  ultimately show ?case
    by (simp add: data_received_def case_prod_beta)
qed

lemma ep_concat: "concat (fst (extract_packets buf)) @ snd (extract_packets buf) = buf"
proof (induction buf rule: extract_packets.induct)
  case (1 buf)
  show ?case
  proof (cases "END \<in> set buf")
    case True
    show ?thesis using "1.IH" [OF True refl refl] by (simp add: ep_END [OF True])
  next
    case False
    then show ?thesis by (simp add: ep_no_END)
  qed
qed

lemma take_index_of:
  "b \<in> set buf \<Longrightarrow> take (Suc (index_of b buf)) buf = takeWhile (\<lambda>x. x \<noteq> b) buf @ [b]"
  unfolding index_of_def by (induction buf) auto

lemma ep_packets:
  "p \<in> set (fst (extract_packets buf)) \<Longrightarrow> p \<noteq> [] \<and> last p = END \<and> END \<notin> set (butlast p)"
proof (induction buf rule: extract_packets.induct)
  case (1 buf)
  show ?case
  proof (cases "END \<in> set buf")
    case True
    have "END \<notin> set (takeWhile (\<lambda>x. x \<noteq> END) buf)"
      by (auto dest: set_takeWhileD)
    then show ?thesis using "1.IH" [OF True refl refl] "1.prems"
      by (auto simp add: ep_END [OF True] take_index_of [OF True])
  next
    case False
    then show ?thesis using "1.prems" by (simp add: ep_no_END)
  qed
qed

text \<open>
  Claim C8 (the frame extractor does not depend on the chunking). From a fresh reader,
  feeding any list of chunks one \<open>data_received\<close> call at a time creates the same raw
  packets in the same order, and leaves the same buf, as one call with the whole
  stream; hence the decoded (address, payload) frames are the same too. The boundaries
  depend on the end markers only: the packets followed by the buf are the stream, each
  packet ends with its only end marker, and the buf that stays holds none.
\<close>

theorem data_received_chunking:
  "feed_chunks [] chunks = data_received [] (concat chunks)
   \<and> decoded_frames (fst (feed_chunks [] chunks))
       = decoded_frames (fst (data_received [] (concat chunks)))
   \<and> concat (fst (feed_chunks [] chunks)) @ snd (feed_chunks [] chunks) = concat chunks
   \<and> (\<forall>p \<in> set (fst (feed_chunks [] chunks)).
         p \<noteq> [] \<and> last p = END \<and> END \<notin> set (butlast p))
   \<and> END \<notin> set (snd (feed_chunks [] chunks))"
proof -
  have eq: "feed_chunks [] chunks = extract_packets (concat chunks)"
    using feed_chunks_eq [of "[]" chunks] by (simp add: data_received_def)
  show ?thesis
    unfolding eq data_received_def
    using ep_concat [of "concat chunks"] ep_rest_no_END [of "concat chunks"]
    by (auto dest: ep_packets)
qed

theorem data_received_chunking_witness:
  "feed_chunks [] [[0x12, 0x01], [0x0A, 0x13], [0x02, 0x0A, 0x07]]
     = data_received [] (concat [[0x12, 0x01], [0x0A, 0x13], [0x02, 0x0A, 0x07]])
   \<and> fst (feed_chunks [] [[0x12, 0x01], [0x0A, 0x13], [0x02, 0x0A, 0x07]])
       = [[0x12, 0x01, 0x0A], [0x13, 0x02, 0x0A]]
   \<and> snd (feed_chunks [] [[0x12, 0x01], [0x0A, 0x13], [0x02, 0x0A, 0x07]]) = [0x07]"
proof -
  have "extract_packets [0x12, 0x01, 0x0A, 0x13, 0x02, 0x0A, 0x07]
     = ([[0x12, 0x01, 0x0A], [0x13, 0x02, 0x0A]], [0x07])"
    by (simp add: extract_packets.simps [of "_ # _"] extract_packets.simps [of "[]"]
          index_of_def END_def)
  then show ?thesis
    using data_received_chunking [of "[[0x12, 0x01], [0x0A, 0x13], [0x02, 0x0A, 0x07]]"]
    by (simp add: data_received_def)
qed

text \<open>
  An encoded frame ends with its only end marker, so the extractor takes it as exactly
  one raw packet and keeps nothing.
\<close>

lemma END_not_in_escaped: "END \<notin> set (concat (map escaped xs))"
  by (induction xs) (simp_all add: escaped_def END_def ESC_def ESC_ESC_def ESC_END_def)

theorem encode_is_one_packet:
  "last (encode xs) = END
   \<and> END \<notin> set (butlast (encode xs))
   \<and> extract_packets (encode xs) = ([encode xs], [])"
proof -
  let ?e = "concat (map escaped xs)"
  have n: "END \<notin> set ?e" by (rule END_not_in_escaped)
  have mem: "END \<in> set (?e @ [END])" by simp
  have "takeWhile (\<lambda>x. x \<noteq> END) (?e @ [END]) = ?e"
    using n by (subst takeWhile_append2) auto
  then have idx: "index_of END (?e @ [END]) = length ?e"
    by (simp only: index_of_def)
  have "extract_packets (?e @ [END]) = ([?e @ [END]], [])"
    using ep_END [OF mem] by (simp add: idx ep_no_END)
  then show ?thesis using n by (simp add: encode_escaped)
qed

section \<open>Properties of the length-prefixed reassembler\<close>

text \<open>The two bit tests of \<open>_read_varint\<close> on a byte, as arithmetic on its value.\<close>

lemma byte_mask7: "(0x7F :: byte) = mask 7" by (simp add: mask_eq_exp_minus_1)

lemma low7: "unat ((w::byte) AND 0x7F) = unat w mod 128"
  unfolding byte_mask7 by (simp add: take_bit_eq_mask [symmetric] take_bit_eq_mod unat_mod)

lemma unat_byte_less: "unat (w::byte) < 256"
  using unsigned_less [of w, where ?'a = nat] by simp

lemma hi_clear: "((w::byte) AND 0x80 = 0) = (unat w < 128)"
proof -
  have "(w AND 0x80 = 0) = (\<not> bit w 7)"
    using and_exp_eq_0_iff_not_bit [of w 7] by simp
  also have "\<dots> = (\<not> bit (unat w) 7)"
    by (simp add: bit_unsigned_iff)
  also have "\<dots> = (\<not> odd (unat w div 128))"
    by (simp add: bit_iff_odd_drop_bit drop_bit_eq_div)
  also have "\<dots> = (unat w < 128)"
  proof (cases "unat w < 128")
    case True
    then show ?thesis by simp
  next
    case False
    with unat_byte_less [of w] have "unat w div 128 = 1" by simp
    with False show ?thesis by simp
  qed
  finally show ?thesis .
qed

lemma or_add: "r < 2 ^ s \<Longrightarrow> (r::nat) OR push_bit s x = r + x * 2 ^ s"
proof -
  assume r: "r < 2 ^ s"
  have "r + push_bit s x = r OR push_bit s x"
  proof (rule disjunctive_add)
    fix n
    show "\<not> bit r n \<or> \<not> bit (push_bit s x) n"
    proof (cases "n < s")
      case True
      then show ?thesis by (simp add: bit_push_bit_iff)
    next
      case False
      then have "(2::nat) ^ s \<le> 2 ^ n" by (intro power_increasing) simp_all
      with r have "r < 2 ^ n" by linarith
      then have "\<not> bit r n" by (simp add: bit_iff_odd)
      then show ?thesis by simp
    qed
  qed
  then show ?thesis by (simp add: push_bit_eq_mult)
qed

lemma varint_encode_small: "n < 128 \<Longrightarrow> varint_encode n = [of_nat n]"
  by (subst varint_encode.simps) simp

lemma varint_encode_large:
  "\<not> n < 128 \<Longrightarrow> varint_encode n = of_nat (n mod 128 + 128) # varint_encode (n div 128)"
  by (subst varint_encode.simps) simp

lemma unat_last_byte: "n < 128 \<Longrightarrow> unat (of_nat n :: byte) = n"
  by (simp add: unat_of_nat)

lemma unat_more_byte: "unat (of_nat (n mod 128) + 128 :: byte) = n mod 128 + 128"
proof -
  have "n mod 128 + 128 < 256" by simp
  then have "unat (of_nat (n mod 128 + 128) :: byte) = n mod 128 + 128"
    by (simp only: unat_of_nat) simp
  then show ?thesis by simp
qed

lemma read_varint_loop_encode:
  "r < 2 ^ s \<Longrightarrow>
   read_varint_loop r s i (varint_encode n @ rest) = Inr (r + n * 2 ^ s, i + length (varint_encode n))"
proof (induction n arbitrary: r s i rule: varint_encode.induct)
  case (1 n)
  show ?case
  proof (cases "n < 128")
    case True
    then show ?thesis
      using "1.prems"
      by (simp add: varint_encode_small hi_clear low7 unat_last_byte or_add Let_def)
  next
    case False
    let ?r' = "r + (n mod 128) * 2 ^ s"
    have "(n mod 128) * 2 ^ s \<le> 127 * 2 ^ s" by (intro mult_right_mono) simp_all
    with "1.prems" have "?r' < 2 ^ s + 127 * 2 ^ s" by linarith
    also have "\<dots> = 2 ^ (s + 7)" by (simp add: power_add)
    finally have r': "?r' < 2 ^ (s + 7)" .
    have IH: "read_varint_loop ?r' (s + 7) (i + 1) (varint_encode (n div 128) @ rest)
        = Inr (?r' + (n div 128) * 2 ^ (s + 7), i + 1 + length (varint_encode (n div 128)))"
      using "1.IH" [OF False r'] .
    have split: "?r' + (n div 128) * 2 ^ (s + 7) = r + n * 2 ^ s"
    proof -
      have "n * 2 ^ s = ((n div 128) * 128 + n mod 128) * 2 ^ s" by simp
      also have "\<dots> = (n mod 128) * 2 ^ s + (n div 128) * 2 ^ (s + 7)"
        by (simp only: power_add distrib_right) simp
      finally show ?thesis by simp
    qed
    show ?thesis
      using "1.prems" False IH
      by (simp add: varint_encode_large hi_clear low7 unat_more_byte or_add Let_def split)
  qed
qed

lemma read_varint_encode:
  "read_varint (varint_encode n @ rest) = Inr (n, length (varint_encode n))"
  using read_varint_loop_encode [where r = 0 and s = 0 and i = 0 and n = n and rest = rest]
  by (simp add: read_varint_def)

lemma read_varint_loop_prefix:
  "k < length (varint_encode n) \<Longrightarrow>
   read_varint_loop r s i (take k (varint_encode n)) = Inl ValueError"
proof (induction n arbitrary: r s i k rule: varint_encode.induct)
  case (1 n)
  show ?case
  proof (cases "n < 128")
    case True
    then show ?thesis using "1.prems" by (simp add: varint_encode_small)
  next
    case False
    show ?thesis
    proof (cases k)
      case 0
      then show ?thesis by simp
    next
      case (Suc k')
      with "1.prems" False have "k' < length (varint_encode (n div 128))"
        by (simp add: varint_encode_large)
      then show ?thesis
        using "1.IH" [OF False] False Suc
        by (simp add: varint_encode_large hi_clear unat_more_byte Let_def)
    qed
  qed
qed

lemma read_varint_loop_append:
  "read_varint_loop r s i buf = Inr x \<Longrightarrow> read_varint_loop r s i (buf @ extra) = Inr x"
  by (induction buf arbitrary: r s i) (auto simp: Let_def split: if_splits)

lemma extract_length_prefixed:
  "extract_next_message (length_prefixed p @ rest) = (Some p, rest)"
  using read_varint_encode [of "length p" "p @ rest"]
  by (simp add: extract_next_message_def length_prefixed_def Let_def)

lemma extract_append:
  "extract_next_message buf = (Some m, remaining) \<Longrightarrow>
   extract_next_message (buf @ extra) = (Some m, remaining @ extra)"
  by (auto simp: extract_next_message_def read_varint_def Let_def
        split: sum.splits if_splits dest: read_varint_loop_append [where extra = extra])

lemma extract_prefix:
  assumes "k < length (length_prefixed p)"
  shows "extract_next_message (take k (length_prefixed p)) = (None, take k (length_prefixed p))"
proof (cases "k < length (varint_encode (length p))")
  case True
  then show ?thesis
    using read_varint_loop_prefix [where k = k and n = "length p" and r = 0 and s = 0 and i = 0]
    by (simp add: extract_next_message_def read_varint_def length_prefixed_def)
next
  case False
  then have tk: "take k (length_prefixed p) =
      varint_encode (length p) @ take (k - length (varint_encode (length p))) p"
    by (simp add: length_prefixed_def)
  show ?thesis
    unfolding tk
    using assms False read_varint_encode [of "length p"]
    by (simp add: extract_next_message_def length_prefixed_def Let_def)
qed

lemma feed_loop_None: "fst (extract_next_message buf) = None \<Longrightarrow> feed_loop buf = ([], buf)"
  by (subst feed_loop.simps) (auto split: prod.splits option.splits)

lemma feed_loop_Some:
  "extract_next_message buf = (Some m, remaining) \<Longrightarrow>
   feed_loop buf = (m # fst (feed_loop remaining), snd (feed_loop remaining))"
  by (subst feed_loop.simps) (simp split: prod.splits)

lemma feed_loop_append:
  "feed_loop (a @ b) =
     (fst (feed_loop a) @ fst (feed_loop (snd (feed_loop a) @ b)),
      snd (feed_loop (snd (feed_loop a) @ b)))"
proof (induction a rule: feed_loop.induct)
  case (1 buf)
  show ?case
  proof (cases "extract_next_message buf")
    case (Pair r remaining)
    show ?thesis
    proof (cases r)
      case None
      with Pair show ?thesis by (simp add: feed_loop_None)
    next
      case (Some m)
      with Pair have ex: "extract_next_message buf = (Some m, remaining)" by simp
      have IH: "feed_loop (remaining @ b) =
          (fst (feed_loop remaining) @ fst (feed_loop (snd (feed_loop remaining) @ b)),
           snd (feed_loop (snd (feed_loop remaining) @ b)))"
        using "1.IH" [OF ex [symmetric] refl] .
      show ?thesis
        by (simp add: feed_loop_Some [OF ex] feed_loop_Some [OF extract_append [OF ex]] IH)
    qed
  qed
qed

lemma feed_loop_rest: "fst (extract_next_message (snd (feed_loop buf))) = None"
proof (induction buf rule: feed_loop.induct)
  case (1 buf)
  show ?case
  proof (cases "extract_next_message buf")
    case (Pair r remaining)
    show ?thesis
    proof (cases r)
      case None
      with Pair show ?thesis by (simp add: feed_loop_None)
    next
      case (Some m)
      with Pair have ex: "extract_next_message buf = (Some m, remaining)" by simp
      show ?thesis using "1.IH" [OF ex [symmetric] refl] by (simp add: feed_loop_Some [OF ex])
    qed
  qed
qed

lemma feed_all_eq:
  "fst (extract_next_message buf) = None \<Longrightarrow> feed_all buf chunks = feed buf (concat chunks)"
proof (induction chunks arbitrary: buf)
  case Nil
  then show ?case by (simp add: feed_def feed_loop_None)
next
  case (Cons c cs)
  have "feed_all (snd (feed_loop (buf @ c))) cs
      = feed_loop (snd (feed_loop (buf @ c)) @ concat cs)"
    using Cons.IH [OF feed_loop_rest] by (simp add: feed_def)
  moreover have "feed_loop (buf @ c @ concat cs) =
      (fst (feed_loop (buf @ c)) @ fst (feed_loop (snd (feed_loop (buf @ c)) @ concat cs)),
       snd (feed_loop (snd (feed_loop (buf @ c)) @ concat cs)))"
    using feed_loop_append [of "buf @ c" "concat cs"] by simp
  ultimately show ?case by (simp add: feed_def case_prod_beta)
qed

lemma extract_Nil: "extract_next_message [] = (None, [])"
  by (simp add: extract_next_message_def read_varint_def)

lemma feed_loop_frames: "feed_loop (concat (map length_prefixed ps)) = (ps, [])"
proof (induction ps)
  case Nil
  show ?case by (simp add: feed_loop_None extract_Nil)
next
  case (Cons p ps)
  show ?case
    using feed_loop_Some [OF extract_length_prefixed [of p "concat (map length_prefixed ps)"]]
    by (simp add: Cons.IH)
qed

lemma feed_loop_take:
  "fst (feed_loop (take m (concat (map length_prefixed ps))))
     = take (length (fst (feed_loop (take m (concat (map length_prefixed ps)))))) ps
   \<and> concat (map length_prefixed (fst (feed_loop (take m (concat (map length_prefixed ps))))))
       @ snd (feed_loop (take m (concat (map length_prefixed ps))))
     = take m (concat (map length_prefixed ps))"
proof (induction ps arbitrary: m)
  case Nil
  show ?case by (simp add: feed_loop_None extract_Nil)
next
  case (Cons p ps)
  show ?case
  proof (cases "m < length (length_prefixed p)")
    case True
    then have "feed_loop (take m (length_prefixed p)) = ([], take m (length_prefixed p))"
      by (simp add: feed_loop_None extract_prefix)
    with True show ?thesis by simp
  next
    case False
    let ?m' = "m - length (length_prefixed p)"
    let ?rest = "take ?m' (concat (map length_prefixed ps))"
    have tk: "take m (concat (map length_prefixed (p # ps))) = length_prefixed p @ ?rest"
      using False by simp
    have fl: "feed_loop (length_prefixed p @ ?rest)
        = (p # fst (feed_loop ?rest), snd (feed_loop ?rest))"
      by (rule feed_loop_Some [OF extract_length_prefixed])
    show ?thesis
      unfolding tk fl using Cons.IH [of ?m'] by simp
  qed
qed

lemma concat_take_prefix:
  "concat (take j chunks) = take (length (concat (take j chunks))) (concat chunks)"
proof -
  have "concat chunks = concat (take j chunks) @ concat (drop j chunks)"
    by (metis append_take_drop_id concat_append)
  then show ?thesis by (metis append_eq_conv_conj)
qed

text \<open>
  Claim C6 (the length-prefixed reassembler). For every list of payloads, each encoded
  with its varint length prefix, and every way of cutting the concatenation into chunks,
  feeding the chunks in order to a fresh reassembler hands the consumer exactly the
  original payloads in their order and leaves the buffer empty. After any number of the
  chunks, the messages handed over so far are an initial segment of the payloads, and
  their complete encodings followed by the retained buffer are exactly the bytes fed so
  far: a message is handed over only once all of its prefix and payload has arrived.
  A proper prefix of an encoded message, cut inside the length prefix or inside the
  payload, yields no message and stays in the buffer; no error arises.
\<close>

theorem feed_reassembles_length_prefixed:
  assumes "concat chunks = concat (map length_prefixed payloads)"
  shows "feed_all [] chunks = (payloads, [])
    \<and> (\<forall>j. fst (feed_all [] (take j chunks))
              = take (length (fst (feed_all [] (take j chunks)))) payloads
          \<and> concat (map length_prefixed (fst (feed_all [] (take j chunks))))
              @ snd (feed_all [] (take j chunks)) = concat (take j chunks))
    \<and> (\<forall>p k. k < length (length_prefixed p) \<longrightarrow>
          extract_next_message (take k (length_prefixed p)) = (None, take k (length_prefixed p)))"
proof (intro conjI allI impI)
  show "feed_all [] chunks = (payloads, [])"
    using feed_all_eq [of "[]" chunks] assms by (simp add: extract_Nil feed_def feed_loop_frames)
next
  fix j
  have eq: "feed_all [] (take j chunks)
      = feed_loop (take (length (concat (take j chunks))) (concat (map length_prefixed payloads)))"
    using feed_all_eq [of "[]" "take j chunks"] concat_take_prefix [of j chunks] assms
    by (simp add: extract_Nil feed_def)
  show "fst (feed_all [] (take j chunks))
      = take (length (fst (feed_all [] (take j chunks)))) payloads"
    unfolding eq using feed_loop_take by blast
  show "concat (map length_prefixed (fst (feed_all [] (take j chunks))))
      @ snd (feed_all [] (take j chunks)) = concat (take j chunks)"
    unfolding eq using feed_loop_take [of "length (concat (take j chunks))" payloads]
      concat_take_prefix [of j chunks] assms by simp
next
  fix p k
  assume "k < length (length_prefixed p)"
  then show "extract_next_message (take k (length_prefixed p)) = (None, take k (length_prefixed p))"
    by (rule extract_prefix)
qed

theorem feed_reassembles_length_prefixed_witness:
  "concat [[0x02, 0x01], [0x02, 0x00, 0x03], [0x09, 0x09], [0x09]]
     = concat (map length_prefixed [[0x01, 0x02], [], [0x09, 0x09, 0x09]])
   \<and> feed_all [] [[0x02, 0x01], [0x02, 0x00, 0x03], [0x09, 0x09], [0x09]]
     = ([[0x01, 0x02], [], [0x09, 0x09, 0x09]], [])"
proof -
  have h: "concat [[0x02, 0x01], [0x02, 0x00, 0x03], [0x09, 0x09], [0x09 :: byte]]
     = concat (map length_prefixed [[0x01, 0x02], [], [0x09, 0x09, 0x09]])"
    by (simp add: length_prefixed_def varint_encode_small)
  show ?thesis
    using h feed_reassembles_length_prefixed [OF h] by simp
qed

section \<open>Properties of the settings verifier\<close>

text \<open>
  Claim C10 (an empty or absent snapshot fails verification). Whatever \<open>expected\<close> is,
  also empty or holding excluded keys only, \<open>verify\<close> returns false when \<open>received\<close>
  is \<open>None\<close> or the empty dict: the check comes before the loop over the keys.
\<close>

theorem verify_empty_received:
  "\<not> fst (verify ne expected None) \<and> \<not> fst (verify ne expected (Some []))"
  by (simp add: verify_def)

lemma verify_item_fst:
  "fst (verify_item ne r (ok, logs) (k, v)) =
     (ok \<and> (k \<notin> set excluded_keys \<longrightarrow> (\<exists>w. map_of r k = Some w \<and> \<not> ne w v)))"
  by (auto simp: verify_item_def split: option.splits)

lemma verify_item_snd:
  "filter is_error (snd (verify_item ne r (ok, logs) item)) =
     filter is_error logs @ expected_errors ne r item"
  by (auto simp: verify_item_def expected_errors_def split: option.splits prod.splits)

lemma verify_fold_fst:
  "fst (foldl (verify_item ne r) (ok, logs) xs) =
     (ok \<and> (\<forall>(k, v) \<in> set xs. k \<notin> set excluded_keys \<longrightarrow> (\<exists>w. map_of r k = Some w \<and> \<not> ne w v)))"
proof (induction xs arbitrary: ok logs)
  case Nil
  show ?case by simp
next
  case (Cons x xs)
  obtain k v where x: "x = (k, v)" by (cases x)
  obtain ok' logs' where step: "verify_item ne r (ok, logs) (k, v) = (ok', logs')"
    by (cases "verify_item ne r (ok, logs) (k, v)")
  have "ok' = (ok \<and> (k \<notin> set excluded_keys \<longrightarrow> (\<exists>w. map_of r k = Some w \<and> \<not> ne w v)))"
    using verify_item_fst [of ne r ok logs k v] step by simp
  then show ?case
    by (auto simp: x step Cons.IH)
qed

lemma verify_fold_snd:
  "filter is_error (snd (foldl (verify_item ne r) (ok, logs) xs)) =
     filter is_error logs @ concat (map (expected_errors ne r) xs)"
proof (induction xs arbitrary: ok logs)
  case Nil
  show ?case by simp
next
  case (Cons x xs)
  obtain ok' logs' where step: "verify_item ne r (ok, logs) x = (ok', logs')"
    by (cases "verify_item ne r (ok, logs) x")
  have "filter is_error logs' = filter is_error logs @ expected_errors ne r x"
    using verify_item_snd [of ne r ok logs x] step by simp
  then show ?case
    by (simp add: step Cons.IH)
qed

text \<open>
  Claim C3 (what \<open>verify\<close> decides), as amended. The claim as stated, for every pair of
  mappings, fails where \<open>received\<close> is empty and \<open>expected\<close> holds excluded keys only:
  the code returns false there (claim C10), the stated condition is true. For every
  non-empty \<open>received\<close>: \<open>verify\<close> returns true if and only if every key of
  \<open>expected\<close> outside the exclusion list is present in \<open>received\<close> with an equal value;
  so it returns true when all keys of \<open>expected\<close> are excluded; and it goes through all
  of \<open>expected\<close>, logging one error line for every missing and every differing key, in
  the order of \<open>expected\<close>.
\<close>

theorem verify_iff:
  assumes "received \<noteq> []"
  shows "fst (verify ne expected (Some received)) =
           (\<forall>(k, v) \<in> set expected.
              k \<notin> set excluded_keys \<longrightarrow> (\<exists>w. map_of received k = Some w \<and> \<not> ne w v))
     \<and> (fst ` set expected \<subseteq> set excluded_keys \<longrightarrow> fst (verify ne expected (Some received)))
     \<and> filter is_error (snd (verify ne expected (Some received)))
         = concat (map (expected_errors ne received) expected)"
proof -
  have v: "verify ne expected (Some received)
      = foldl (verify_item ne received) (True, []) expected"
    using assms by (simp add: verify_def)
  show ?thesis
    unfolding v by (auto simp: verify_fold_fst verify_fold_snd)
qed

theorem verify_iff_witness:
  "[(''a'', JInt 1), (''b'', JInt 7)] \<noteq> []
   \<and> fst (verify py_ne [(''a'', JBool True), (''save'', JBool True)]
            (Some [(''a'', JInt 1), (''b'', JInt 7)]))
   \<and> \<not> fst (verify py_ne [(''a'', JInt 1), (''c'', JInt 7), (''b'', JInt 8)]
              (Some [(''a'', JInt 1), (''b'', JInt 7)]))
   \<and> filter is_error (snd (verify py_ne [(''a'', JInt 1), (''c'', JInt 7), (''b'', JInt 8)]
              (Some [(''a'', JInt 1), (''b'', JInt 7)])))
       = [Log_missing ''c'', Log_mismatch (JInt 8) (JInt 7)]"
proof -
  have h: "[(''a'', JInt 1), (''b'', JInt (7::int))] \<noteq> []" by simp
  show ?thesis
    using verify_iff [OF h, of py_ne "[(''a'', JBool True), (''save'', JBool True)]"]
      verify_iff [OF h, of py_ne "[(''a'', JInt 1), (''c'', JInt 7), (''b'', JInt 8)]"]
    by (simp add: expected_errors_def excluded_keys_def py_ne_def)
qed

theorem verify_iff_counterexample:
  "\<not> (fst (verify py_ne [(''save'', JBool True)] (Some [])) =
        (\<forall>(k, v) \<in> set [(''save'', JBool True)].
           k \<notin> set excluded_keys \<longrightarrow> (\<exists>w. map_of [] k = Some w \<and> \<not> py_ne w v)))"
  by (simp add: verify_def excluded_keys_def)

section \<open>Properties of the JSON reassembler\<close>

lemma utf8_head_consumes:
  "utf8_head (b # rest) = (r, n) \<Longrightarrow> 0 < n \<and> n \<le> length (b # rest)"
  by (auto split: if_splits list.splits)

lemma utf8_head_append:
  "utf8_head a = (Some cp, n) \<Longrightarrow> utf8_head (a @ c) = (Some cp, n)"
  by (cases a) (auto split: if_splits list.splits)


lemma utf8_valid_nat_append:
  "utf8_valid_nat a \<Longrightarrow> utf8_valid_nat c \<Longrightarrow> utf8_valid_nat (a @ c)"
proof (induction a rule: utf8_valid_nat.induct)
  case 1
  then show ?case by simp
next
  case (2 b rest)
  obtain r n where h: "utf8_head (b # rest) = (r, n)" by (cases "utf8_head (b # rest)")
  with "2.prems" obtain cp where r: "r = Some cp" and v: "utf8_valid_nat (drop n (b # rest))"
    by (cases r) (simp_all del: utf8_head.simps)
  have n: "0 < n" "n \<le> length (b # rest)" using utf8_head_consumes [OF h] by auto
  have ha: "utf8_head (b # (rest @ c)) = (Some cp, n)"
    using utf8_head_append [of "b # rest" cp n c] h r by simp
  have d: "drop n (b # (rest @ c)) = drop n (b # rest) @ c"
    using n(2) by (simp add: drop_Cons split: nat.splits)
  have IH: "utf8_valid_nat (drop n (b # rest) @ c)"
    using "2.IH" h r v "2.prems"(2) by simp
  show ?case using ha d IH by (simp del: utf8_head.simps)
qed



lemma utf8_ascii_nat:
  "list_all (\<lambda>b. b < 0x80) bs \<Longrightarrow> utf8_decode_nat bs = bs \<and> utf8_valid_nat bs"
  by (induction bs) simp_all

lemma utf8_ascii:
  "list_all (\<lambda>b. b < 0x80) bs \<Longrightarrow> utf8_decode_replace bs = map unat bs \<and> utf8_valid bs"
  using utf8_ascii_nat [of "map unat bs"]
  by (simp add: utf8_decode_replace_def utf8_valid_def list_all_iff word_less_nat_alt)


lemma ascii_chunks_valid:
  "list_all (list_all (\<lambda>b. b < 0x80)) payloads \<Longrightarrow> list_all utf8_valid payloads"
  using utf8_ascii by (auto simp: list_all_iff)


lemma scan_buffer: "buffer (foldl scan_char st c) = buffer st"
  by (induction c arbitrary: st) (auto simp: scan_char_def)

lemma scan_future: "response_future (foldl scan_char st c) = response_future st"
  by (induction c arbitrary: st) (auto simp: scan_char_def)

lemma scan_count: "brace_count (foldl scan_char st c) = brace_count st + brace_depth c"
  by (induction c arbitrary: st) (auto simp: scan_char_def LBRACE_def RBRACE_def)

lemma scan_in_json: "in_json (foldl scan_char st c) = (in_json st \<or> LBRACE \<in> set c)"
  by (induction c arbitrary: st) (auto simp: scan_char_def)

lemma scan_chunk:
  "foldl scan_char (st\<lparr>buffer := buffer st @ c\<rparr>) c
     = st\<lparr>buffer := buffer st @ c,
           brace_count := brace_count st + brace_depth c,
           in_json := in_json st \<or> LBRACE \<in> set c\<rparr>"
  by (rule SettingsHandler.equality)
     (simp_all add: scan_buffer scan_future scan_count scan_in_json)

lemma handle_scan:
  "handle L D st p =
     (let st2 = st\<lparr>buffer := buffer st @ D p,
                   brace_count := brace_count st + brace_depth (D p),
                   in_json := in_json st \<or> LBRACE \<in> set (D p)\<rparr>
      in if in_json st2 \<and> brace_count st2 = 0 then
           (case L (buffer st2) of
              Other_exception \<Rightarrow> (st2, [])
            | loaded \<Rightarrow>
                (let json_obj = (case loaded of Loaded v \<Rightarrow> Some v | _ \<Rightarrow> None) in
                 case response_future st of
                   Some Pending \<Rightarrow>
                     (st2\<lparr>response_future := Some (Resolved json_obj),
                          buffer := [], in_json := False\<rparr>, [json_obj])
                 | _ \<Rightarrow> (st2\<lparr>buffer := [], in_json := False\<rparr>, [])))
         else (st2, []))"
  unfolding handle_def Let_def scan_chunk
  by (auto simp: is_done_def split: option.splits future.splits loads_result.splits)





lemma handle_complete_decode_error:
  assumes "in_json st \<or> LBRACE \<in> set (D p)" "brace_count st + brace_depth (D p) = 0"
    and "response_future st = Some Pending"
    and "L (buffer st @ D p) = JSONDecodeError"
  shows "handle L D st p =
     (st\<lparr>buffer := [], brace_count := 0, in_json := False,
         response_future := Some (Resolved None)\<rparr>,
      [None])"
  using assms unfolding handle_scan Let_def by auto














section \<open>Properties of the correlator slots\<close>

lemma handle_not_pending:
  assumes "response_future st \<noteq> Some Pending"
  shows "response_future (fst (handle L D st p)) = response_future st
       \<and> snd (handle L D st p) = []"
  using assms unfolding handle_scan Let_def
  by (auto split: option.splits future.splits loads_result.splits)

lemma handle_all_not_pending:
  assumes "response_future st \<noteq> Some Pending"
  shows "response_future (fst (handle_all L D st ps)) = response_future st
       \<and> snd (handle_all L D st ps) = []"
  using assms
proof (induction ps arbitrary: st)
  case Nil
  show ?case by simp
next
  case (Cons p ps)
  have h: "response_future (fst (handle L D st p)) = response_future st"
     "snd (handle L D st p) = []"
    using handle_not_pending [OF Cons.prems] by auto
  then have "response_future (fst (handle L D st p)) \<noteq> Some Pending"
    using Cons.prems by simp
  from Cons.IH [OF this] h show ?case by (simp add: case_prod_beta)
qed

lemma handle_results:
  "snd (handle L D st p) = []
   \<or> (\<exists>v. snd (handle L D st p) = [v]
          \<and> response_future (fst (handle L D st p)) = Some (Resolved v))"
  unfolding handle_scan Let_def
  by (auto split: option.splits future.splits loads_result.splits)

lemma handle_all_at_most_once: "length (snd (handle_all L D st ps)) \<le> 1"
proof (induction ps arbitrary: st)
  case Nil
  show ?case by simp
next
  case (Cons p ps)
  from handle_results [of L D st p] show ?case
  proof
    assume "snd (handle L D st p) = []"
    then show ?thesis using Cons.IH [of "fst (handle L D st p)"] by (simp add: case_prod_beta)
  next
    assume "\<exists>v. snd (handle L D st p) = [v]
          \<and> response_future (fst (handle L D st p)) = Some (Resolved v)"
    then obtain v where v: "snd (handle L D st p) = [v]"
      "response_future (fst (handle L D st p)) = Some (Resolved v)" by blast
    then have "response_future (fst (handle L D st p)) \<noteq> Some Pending" by simp
    from handle_all_not_pending [OF this, of L D ps] v show ?thesis
      by (simp add: case_prod_beta)
  qed
qed

lemma handler_done: "is_done (serial_future fw) \<Longrightarrow> handler F fw p = fw"
  by (simp add: handler_def split: fwinfo_message.splits)

lemma handler_resolved_stays:
  "serial_future fw = Resolved sn \<Longrightarrow> serial_future (foldl (handler F) fw ps) = Resolved sn"
  by (induction ps arbitrary: fw) (simp_all add: handler_done is_done_def)

lemma handler_fresh:
  "F p = Dev_info sn \<Longrightarrow> handler F FWInfoReader_init p = \<lparr>serial_future = Resolved sn\<rparr>"
  by (simp add: handler_def FWInfoReader_init_def is_done_def)

text \<open>
  Claim C9 (a slot is fulfilled at most once), as amended. For the settings slot: when
  it does not hold a pending future (no wait was ever started, the last wait was
  resolved, or it timed out and \<open>wait_for\<close> cancelled the future), a completed JSON
  object changes nothing in the slot and \<open>set_result\<close> is not called; over any sequence
  of deliveries \<open>set_result\<close> is called at most once on a slot. For the firmware-info
  slot: once it is done the handler changes nothing, and a resolved value stays whatever
  arrives later. But that slot is created pending with the reader, not by the wait: a
  \<open>dev_info\<close> response that arrives before \<open>wait_serial\<close> is called does resolve it,
  and the later wait returns that serial at once. The claim as stated, that a
  fulfillment arriving while no wait is pending is a no-op for every slot, fails there.
\<close>

theorem slot_fulfilled_at_most_once:
  "(response_future st \<noteq> Some Pending \<longrightarrow>
      response_future (fst (handle json_loads utf8_decode st payload)) = response_future st
      \<and> snd (handle json_loads utf8_decode st payload) = [])
   \<and> length (snd (handle_all json_loads utf8_decode st payloads)) \<le> 1
   \<and> (is_done (serial_future fw) \<longrightarrow> handler FromString fw payload = fw)
   \<and> (serial_future fw = Resolved sn \<longrightarrow>
        serial_future (foldl (handler FromString) fw payloads) = Resolved sn)
   \<and> (FromString payload = Dev_info sn \<longrightarrow>
        serial_future (handler FromString FWInfoReader_init payload) = Resolved sn
        \<and> wait_serial FromString (handler FromString FWInfoReader_init payload) events
            = Returned sn)"
  using handle_not_pending [of st json_loads utf8_decode payload]
    handle_all_at_most_once [of json_loads utf8_decode st payloads]
    handler_done [of fw FromString payload]
    handler_resolved_stays [of fw sn FromString payloads]
    handler_fresh [of FromString payload sn]
  by (auto simp: wait_serial.simps)

theorem slot_fulfilled_at_most_once_witness:
  \<open>response_future (fst (handle (\<lambda>t. Loaded [(''a'', JInt 1)]) (map unat)
       (SettingsHandler_init :: jdict SettingsHandler) (ascii_bytes ''{"a": 1}''))) = None
   \<and> snd (handle (\<lambda>t. Loaded [(''a'', JInt 1)]) (map unat)
       (SettingsHandler_init :: jdict SettingsHandler) (ascii_bytes ''{"a": 1}'')) = []
   \<and> handler (\<lambda>p. Dev_info ''XYZ789'') \<lparr>serial_future = Resolved ''ABC123''\<rparr>
         (ascii_bytes ''{"a": 1}'')
       = \<lparr>serial_future = Resolved ''ABC123''\<rparr>
   \<and> serial_future (handler (\<lambda>p. Dev_info ''ABC123'') FWInfoReader_init [0x0A])
       = Resolved ''ABC123''\<close>
  using slot_fulfilled_at_most_once [of "SettingsHandler_init :: jdict SettingsHandler"
      \<open>\<lambda>t. Loaded [(''a'', JInt 1)]\<close> "map unat" \<open>ascii_bytes ''{"a": 1}''\<close> "[]"
      "\<lparr>serial_future = Resolved ''ABC123''\<rparr>" "\<lambda>p. Dev_info ''XYZ789''" "''ABC123''" "[]"]
    slot_fulfilled_at_most_once [of "SettingsHandler_init :: jdict SettingsHandler"
      \<open>\<lambda>t. Loaded [(''a'', JInt 1)]\<close> "map unat" \<open>[0x0A]\<close> "[]"
      "FWInfoReader_init" "\<lambda>p. Dev_info ''ABC123''" "''ABC123''" "[]"]
  by (simp add: SettingsHandler_init_def is_done_def)

theorem fwinfo_early_fulfillment_counterexample:
  "handler (\<lambda>p. Dev_info ''ABC123'') FWInfoReader_init [0x0A] \<noteq> FWInfoReader_init
   \<and> wait_serial (\<lambda>p. Dev_info ''ABC123'')
        (handler (\<lambda>p. Dev_info ''ABC123'') FWInfoReader_init [0x0A]) [] = Returned ''ABC123''"
  by (simp add: handler_def FWInfoReader_init_def is_done_def wait_serial.simps)

section \<open>Properties of the orchestrator\<close>

lemma wait_serial_elapsed:
  "wait_serial F FWInfoReader_init (replicate n Elapsed) = Suspended"
  by (induction n) (simp_all add: wait_serial.simps FWInfoReader_init_def)

text \<open>
  Claim C5 (the wait for the serial is bounded by a timeout). The code does not do that:
  \<open>wait_serial\<close> awaits the future with no timeout, while its sibling
  \<open>wait_response\<close> wraps the same kind of await in \<open>asyncio.wait_for\<close> and returns
  \<open>None\<close> when the time has passed. However much time passes without a firmware-info
  response, \<open>wait_serial\<close> stays suspended, and so does \<open>main\<close>: after the request it
  neither goes on nor stops with a failure.
\<close>

theorem wait_serial_never_times_out:
  "wait_serial FromString FWInfoReader_init (replicate n Elapsed) = Suspended
   \<and> snd (wait_response json_loads utf8_decode st (Elapsed # events)) = Returned None
   \<and> main L AUTH_KEY
         \<lparr>responses = Some [(''settings/lock'', JBool True)] # rs,
          serial_wait = wait_serial FromString FWInfoReader_init (replicate n Elapsed),
          starts = ss\<rparr>
       = ([Read_settings, Fwinfo_request], Suspended)"
  by (simp add: wait_serial_elapsed wait_response_def main_def next_response_def dict_get_def
        signed_settings_flow_def)

lemma reconnect_no_start: "reconnect n [] rs = concat (replicate n [Sleep, Start False]) @ [Log_restart_timed_out]"
  by (induction n) simp_all

text \<open>
  Claim C2 (a failed signed upload stops the orchestrator). The code does not do that:
  \<open>main\<close> drops the result of the last \<open>upload_settings\<close> call, whereas it tests the
  result of the two calls before it and returns when one is false. With a locked device
  and serial \<open>ABC123\<close>, when the read-back of the signed upload times out, or returns
  a brightness of 10 instead of 25, \<open>upload_settings\<close> returns false and \<open>main\<close> still
  writes the restart frame, closes the transport and goes through the ten reconnect
  attempts. The last conjunct is the sibling path: a read-back that times out in the
  access setup of an unlocked device ends \<open>main\<close> with no restart.
\<close>

theorem main_restarts_after_failed_signed_upload:
  "\<not> fst (upload_settings payload (Some [(''app/brightness'', JInt 25), (''save'', JBool True)])
            [None])
   \<and> \<not> fst (upload_settings payload (Some [(''app/brightness'', JInt 25), (''save'', JBool True)])
            [Some [(''app/brightness'', JInt 10)]])
   \<and> main L AUTH_KEY
         \<lparr>responses = [Some [(''settings/lock'', JBool True)], None],
          serial_wait = Returned ''ABC123'', starts = []\<rparr>
       = ([Read_settings, Fwinfo_request,
           Upload (sign_settings L \<lparr>key = AUTH_KEY\<rparr>
                     [(''app/brightness'', JInt 25), (''save'', JBool True)] ''ABC123''),
           Sleep, Read_settings, Restart_device, Close]
          @ concat (replicate 10 [Sleep, Start False]) @ [Log_restart_timed_out, Close],
          Returned ())
   \<and> main L AUTH_KEY
         \<lparr>responses = [Some [(''settings/lock'', JBool True)],
                       Some [(''app/brightness'', JInt 10)]],
          serial_wait = Returned ''ABC123'', starts = []\<rparr>
       = ([Read_settings, Fwinfo_request,
           Upload (sign_settings L \<lparr>key = AUTH_KEY\<rparr>
                     [(''app/brightness'', JInt 25), (''save'', JBool True)] ''ABC123''),
           Sleep, Read_settings, Restart_device, Close]
          @ concat (replicate 10 [Sleep, Start False]) @ [Log_restart_timed_out, Close],
          Returned ())
   \<and> main L AUTH_KEY
         \<lparr>responses = [Some [(''settings/lock'', JBool False)], None],
          serial_wait = Returned ''ABC123'', starts = []\<rparr>
       = ([Read_settings,
           Upload [(''settings/acl_0'', JStr ''//////////////////////////////////////////8=''),
                   (''settings/key_0'', JStr (bytes_decode L (b64encode L AUTH_KEY))),
                   (''save'', JBool True)],
           Sleep, Read_settings, Close],
          Returned ())"
  by (simp add: main_def signed_settings_flow_def upload_settings_def next_response_def
        not_received_def dict_get_def verify_def verify_item_def excluded_keys_def py_ne_def
        reconnect_no_start Let_def)

end
